theory Spec2Isabelle
  imports Complex_Main
begin

section \<open>Tensors and run-time errors\<close>

text \<open>
  An image is a rank-3 tensor, height by width by channels, held as nested lists. The
  element type is a parameter: the decoded images are \<open>uint8\<close>, the resized ones
  \<open>float32\<close>.
\<close>

type_synonym 'a image = "'a list list list"

text \<open>
  \<open>ValueError n\<close> is the exception of \<open>make_dataset\<close>, with the message
  "n resolution is not supported.". The errors of the TensorFlow operations, which show
  when the dataset is iterated, are a type of their own.
\<close>

datatype error = ValueError int

datatype tf_error = InvalidArgument | IncompatibleShape

definition height :: "'a image \<Rightarrow> nat" where
  "height img = length img"

definition width :: "'a image \<Rightarrow> nat" where
  "width img = (case img of [] \<Rightarrow> 0 | row # _ \<Rightarrow> length row)"

definition channels :: "'a image \<Rightarrow> nat" where
  "channels img =
     (case img of [] \<Rightarrow> 0 | row # _ \<Rightarrow> (case row of [] \<Rightarrow> 0 | p # _ \<Rightarrow> length p))"

definition shape :: "'a image \<Rightarrow> nat \<times> nat \<times> nat" where
  "shape img = (height img, width img, channels img)"

definition has_shape :: "'a image \<Rightarrow> nat \<Rightarrow> nat \<Rightarrow> nat \<Rightarrow> bool" where
  "has_shape img h w c =
     (length img = h \<and> (\<forall>row \<in> set img. length row = w \<and> (\<forall>p \<in> set row. length p = c)))"

text \<open>
  An input image of the pipeline: a decoded picture, so at least one pixel, every row of
  the same width, three channels in every pixel.
\<close>

definition wf_image :: "'a image \<Rightarrow> bool" where
  "wf_image img =
     (0 < height img \<and> 0 < width img \<and> has_shape img (height img) (width img) 3)"

fun mapM :: "('a \<Rightarrow> tf_error + 'b) \<Rightarrow> 'a list \<Rightarrow> tf_error + 'b list" where
  "mapM f [] = Inr []"
| "mapM f (x # xs) =
     (case f x of
        Inl e \<Rightarrow> Inl e
      | Inr y \<Rightarrow> (case mapM f xs of Inl e \<Rightarrow> Inl e | Inr ys \<Rightarrow> Inr (y # ys)))"

section \<open>The TensorFlow operations the notebook calls\<close>

text \<open>
  These are not code of the notebook. Each is written from its documented behaviour on
  the arguments the notebook passes, with its argument checks as error results.
\<close>

subsection \<open>\<open>tf.slice\<close>\<close>

text \<open>
  One axis of \<open>tf.slice\<close>: \<open>size\<close> elements from \<open>begin\<close>; a size of
  \<open>-1\<close> takes all that remain.
\<close>

definition slice_axis :: "int \<Rightarrow> int \<Rightarrow> 'x list \<Rightarrow> tf_error + 'x list" where
  "slice_axis b s xs =
     (let n = int (length xs);
          s' = (if s = -1 then n - b else s)
      in if 0 \<le> b \<and> 0 \<le> s' \<and> b + s' \<le> n
         then Inr (take (nat s') (drop (nat b) xs))
         else Inl InvalidArgument)"

definition slice :: "'a image \<Rightarrow> int \<times> int \<times> int \<Rightarrow> int \<times> int \<times> int \<Rightarrow> tf_error + 'a image" where
  "slice img begin sz =
     (case begin of (b0, b1, b2) \<Rightarrow>
      case sz of (s0, s1, s2) \<Rightarrow>
        (case slice_axis b0 s0 img of
           Inl e \<Rightarrow> Inl e
         | Inr rows \<Rightarrow>
             mapM (\<lambda>row. case slice_axis b1 s1 row of
                             Inl e \<Rightarrow> Inl e
                           | Inr cols \<Rightarrow> mapM (slice_axis b2 s2) cols) rows))"

subsection \<open>\<open>tf.image.resize\<close>\<close>

text \<open>
  The result has the requested height and width and the channels of the input. Its
  values are a floating-point interpolation of the input, which is left open: the
  kernel \<open>K\<close> gives the value at each output position, and every theorem holds for
  every kernel. The operation rejects an empty input and a size that is not positive.
\<close>

type_synonym ('a, 'b) kernel = "'a image \<Rightarrow> nat \<times> nat \<Rightarrow> nat \<Rightarrow> nat \<Rightarrow> nat \<Rightarrow> 'b"

definition resize :: "('a, 'b) kernel \<Rightarrow> 'a image \<Rightarrow> int \<times> int \<Rightarrow> tf_error + 'b image" where
  "resize K img sz =
     (case sz of (h, w) \<Rightarrow>
        if h \<le> 0 \<or> w \<le> 0 then Inl InvalidArgument
        else if height img = 0 \<or> width img = 0 then Inl InvalidArgument
        else Inr (map (\<lambda>i. map (\<lambda>j. map (\<lambda>c. K img (nat h, nat w) i j c)
                                          [0..<channels img])
                                 [0..<nat w])
                      [0..<nat h]))"

subsection \<open>\<open>tf.image.random_flip_left_right\<close>\<close>

definition flip_left_right :: "'a image \<Rightarrow> 'a image" where
  "flip_left_right img = map rev img"

text \<open>The coin of the random flip is an argument.\<close>

definition random_flip_left_right :: "bool \<Rightarrow> 'a image \<Rightarrow> 'a image" where
  "random_flip_left_right coin img = (if coin then flip_left_right img else img)"

subsection \<open>\<open>tf.image.sample_distorted_bounding_box\<close>\<close>

text \<open>
  Called with no bounding boxes, \<open>min_object_covered = 0\<close> and
  \<open>use_image_if_no_bounding_boxes = True\<close>: the whole image is the only box, and
  nothing has to be covered. The operation draws candidate windows and returns one that
  lies in the image and whose area is within \<open>area_range\<close> of the image's area; when
  it finds none it returns the whole image. The random source appears as the candidate
  window \<open>(y, x, h, w)\<close>. The result is \<open>begin = [y, x, 0]\<close> and
  \<open>size = [h, w, -1]\<close>; the third result, the box for drawing, is not used by the
  notebook and is left out.
\<close>

definition valid_window :: "nat \<times> nat \<times> nat \<Rightarrow> rat \<times> rat \<Rightarrow> nat \<times> nat \<times> nat \<times> nat \<Rightarrow> bool" where
  "valid_window image_size area_range cand =
     (case image_size of (H, W, C) \<Rightarrow>
      case area_range of (lo, hi) \<Rightarrow>
      case cand of (y, x, h, w) \<Rightarrow>
        0 < h \<and> 0 < w \<and> y + h \<le> H \<and> x + w \<le> W \<and>
        lo * of_nat (H * W) \<le> of_nat (h * w) \<and> of_nat (h * w) \<le> hi * of_nat (H * W))"

definition sample_distorted_bounding_box ::
  "nat \<times> nat \<times> nat \<Rightarrow> rat \<times> rat \<Rightarrow> bool \<Rightarrow> nat \<times> nat \<times> nat \<times> nat
     \<Rightarrow> tf_error + ((int \<times> int \<times> int) \<times> (int \<times> int \<times> int))" where
  "sample_distorted_bounding_box image_size area_range use_image_if_no_bounding_boxes cand =
     (case image_size of (H, W, C) \<Rightarrow>
        if H = 0 \<or> W = 0 then Inl InvalidArgument
        else if \<not> use_image_if_no_bounding_boxes then Inl InvalidArgument
        else if valid_window image_size area_range cand
        then (case cand of (y, x, h, w) \<Rightarrow> Inr ((int y, int x, 0), (int h, int w, -1)))
        else Inr ((0, 0, 0), (int H, int W, -1)))"

subsection \<open>\<open>Tensor.set_shape\<close>\<close>

text \<open>
  \<open>set_shape\<close> states dimensions of a tensor; \<open>None\<close> leaves one open. A stated
  dimension that differs from the tensor's is an error.
\<close>

definition set_shape :: "'a image \<Rightarrow> nat option \<times> nat option \<times> nat option \<Rightarrow> tf_error + 'a image" where
  "set_shape img dims =
     (case dims of (d0, d1, d2) \<Rightarrow>
        if (case d0 of None \<Rightarrow> True | Some n \<Rightarrow> n = height img) \<and>
           (case d1 of None \<Rightarrow> True | Some n \<Rightarrow> n = width img) \<and>
           (case d2 of None \<Rightarrow> True | Some n \<Rightarrow> n = channels img)
        then Inr img else Inl IncompatibleShape)"

subsection \<open>\<open>layers.CenterCrop\<close>\<close>

text \<open>
  The layer takes a batch of images. For each it asserts that the image is at least as
  large as the target, and slices the target out of the middle, starting at half the
  difference, rounded down.
\<close>

definition center_crop1 :: "int \<Rightarrow> int \<Rightarrow> 'a image \<Rightarrow> tf_error + 'a image" where
  "center_crop1 target_height target_width img =
     (let img_hd_diff = int (height img) - target_height;
          img_wd_diff = int (width img) - target_width
      in if img_hd_diff < 0 \<or> img_wd_diff < 0 then Inl InvalidArgument
         else slice img (img_hd_diff div 2, img_wd_diff div 2, 0)
                        (target_height, target_width, -1))"

definition CenterCrop :: "int \<Rightarrow> int \<Rightarrow> 'a image list \<Rightarrow> tf_error + 'a image list" where
  "CenterCrop target_height target_width inputs =
     mapM (center_crop1 target_height target_width) inputs"

text \<open>\<open>t[None, ...]\<close> makes a batch of one; \<open>t[0]\<close> takes the first of a batch.\<close>

definition expand_dims :: "'a image \<Rightarrow> 'a image list" where
  "expand_dims img = [img]"

definition first :: "'a image list \<Rightarrow> tf_error + 'a image" where
  "first batch = (case batch of [] \<Rightarrow> Inl InvalidArgument | img # _ \<Rightarrow> Inr img)"

section \<open>The notebook: constants and the two preprocessing functions\<close>

definition py_int :: "rat \<Rightarrow> int" where
  "py_int x = (if 0 \<le> x then \<lfloor>x\<rfloor> else \<lceil>x\<rceil>)"

definition batch_size :: int where
  "batch_size = 128"

definition auto :: int where
  "auto = -1"

definition smaller_size :: int where
  "smaller_size = 128"

definition bigger_size :: int where
  "bigger_size = 224"

definition size_for_resizing :: int where
  "size_for_resizing = py_int ((of_int bigger_size / of_int smaller_size) * of_int bigger_size)"

definition central_crop_layer :: "'a image list \<Rightarrow> tf_error + 'a image list" where
  "central_crop_layer = CenterCrop bigger_size bigger_size"

text \<open>
  The random draws one example uses: the window of the bounding-box sampler and the coin
  of the flip.
\<close>

record draws =
  window :: "nat \<times> nat \<times> nat \<times> nat"
  coin :: bool

text \<open>
  \<open>pp\<close> is the inner function \<open>_pp\<close> of \<open>preprocess_initial\<close>; it closes over
  \<open>image_size\<close>. Its own parameter \<open>train\<close> hides the one of
  \<open>preprocess_initial\<close>, which is therefore never read.
\<close>

definition pp ::
  "('a, 'b) kernel \<Rightarrow> int \<Rightarrow> 'a image \<Rightarrow> 'l \<Rightarrow> bool \<Rightarrow> draws \<Rightarrow> tf_error + ('b image \<times> 'l)" where
  "pp K image_size img label train d =
     (if train then
        (let chans = channels img in
         case sample_distorted_bounding_box (shape img) (5 / 100, 1) True (window d) of
           Inl e \<Rightarrow> Inl e
         | Inr (begin, sz) \<Rightarrow>
        (case slice img begin sz of
           Inl e \<Rightarrow> Inl e
         | Inr img1 \<Rightarrow>
        (case set_shape img1 (None, None, Some chans) of
           Inl e \<Rightarrow> Inl e
         | Inr img2 \<Rightarrow>
        (case resize K img2 (image_size, image_size) of
           Inl e \<Rightarrow> Inl e
         | Inr img3 \<Rightarrow> Inr (random_flip_left_right (coin d) img3, label)))))
      else
        (case resize K img (image_size, image_size) of
           Inl e \<Rightarrow> Inl e
         | Inr img1 \<Rightarrow> Inr (img1, label)))"

definition preprocess_initial ::
  "('a, 'b) kernel \<Rightarrow> bool \<Rightarrow> int
     \<Rightarrow> 'a image \<Rightarrow> 'l \<Rightarrow> bool \<Rightarrow> draws \<Rightarrow> tf_error + ('b image \<times> 'l)" where
  "preprocess_initial K train image_size = pp K image_size"

definition preprocess_finetune ::
  "('a, 'b) kernel \<Rightarrow> 'a image \<Rightarrow> 'l \<Rightarrow> bool \<Rightarrow> draws \<Rightarrow> tf_error + ('b image \<times> 'l)" where
  "preprocess_finetune K img label train d =
     (case resize K img (size_for_resizing, size_for_resizing) of
        Inl e \<Rightarrow> Inl e
      | Inr img1 \<Rightarrow>
          (let img2 = (if train then random_flip_left_right (coin d) img1 else img1) in
           case central_crop_layer (expand_dims img2) of
             Inl e \<Rightarrow> Inl e
           | Inr batch \<Rightarrow>
               (case first batch of
                  Inl e \<Rightarrow> Inl e
                | Inr img3 \<Rightarrow> Inr (img3, label))))"

section \<open>The dataset operations\<close>

text \<open>
  A dataset is a finite stream that is produced again at every iteration. One iteration
  has its own randomness: the picks of the shuffle buffer and, for the k-th element that
  reaches \<open>map\<close>, the draws of the random image operations. An iteration gives the
  elements, or the error of the first operation that fails.
\<close>

record rng =
  picks :: "nat \<Rightarrow> nat"
  example_draws :: "nat \<Rightarrow> draws"

type_synonym 'e dataset = "rng \<Rightarrow> tf_error + 'e list"

text \<open>
  \<open>Dataset.shuffle\<close>: a buffer holds the first \<open>buffer_size\<close> elements; each step
  gives out one element of the buffer, chosen at random, and puts the next element of
  the input in its place, until input and buffer are empty.
\<close>

function shuffle_buffer :: "(nat \<Rightarrow> nat) \<Rightarrow> nat \<Rightarrow> 'e list \<Rightarrow> 'e list \<Rightarrow> 'e list" where
  "shuffle_buffer pick k buf rest =
     (if buf = [] then []
      else (let i = pick k mod length buf in
            buf ! i #
            (case rest of
               [] \<Rightarrow> shuffle_buffer pick (Suc k) (take i buf @ drop (Suc i) buf) []
             | x # xs \<Rightarrow> shuffle_buffer pick (Suc k) (buf[i := x]) xs)))"
  by pat_completeness auto
termination
proof (relation "measure (\<lambda>(pick, k, buf, rest). length buf + length rest)")
  show "wf (measure (\<lambda>(pick, k, buf, rest). length buf + length rest))"
    by simp
next
  fix pick :: "nat \<Rightarrow> nat" and k :: nat and buf rest :: "'e list" and i :: nat
  assume ne: "buf \<noteq> []" and i: "i = pick k mod length buf" and r: "rest = []"
  from ne i have "i < length buf" by simp
  then have "length (take i buf @ drop (Suc i) buf) < length buf" by simp
  with r show "((pick, Suc k, take i buf @ drop (Suc i) buf, []), (pick, k, buf, rest))
      \<in> measure (\<lambda>(pick, k, buf, rest). length buf + length rest)"
    by simp
next
  fix pick :: "nat \<Rightarrow> nat" and k :: nat and buf rest :: "'e list" and i :: nat
    and x :: 'e and xs :: "'e list"
  assume "rest = x # xs"
  then show "((pick, Suc k, buf[i := x], xs), (pick, k, buf, rest))
      \<in> measure (\<lambda>(pick, k, buf, rest). length buf + length rest)"
    by simp
qed

definition shuffle :: "int \<Rightarrow> 'e dataset \<Rightarrow> 'e dataset" where
  "shuffle buffer_size ds =
     (\<lambda>g. if buffer_size < 1 then Inl InvalidArgument
          else (case ds g of
                  Inl e \<Rightarrow> Inl e
                | Inr xs \<Rightarrow>
                    Inr (shuffle_buffer (picks g) 0 (take (nat buffer_size) xs)
                           (drop (nat buffer_size) xs))))"

text \<open>
  \<open>Dataset.map\<close> applies the function to every element, in the order of the stream;
  \<open>num_parallel_calls\<close> changes how the work is scheduled, not the result.
\<close>

definition map_ds :: "('e \<Rightarrow> draws \<Rightarrow> tf_error + 'f) \<Rightarrow> int \<Rightarrow> 'e dataset \<Rightarrow> 'f dataset" where
  "map_ds f num_parallel_calls ds =
     (\<lambda>g. case ds g of
            Inl e \<Rightarrow> Inl e
          | Inr xs \<Rightarrow> mapM (\<lambda>(k, x). f x (example_draws g k)) (enumerate 0 xs))"

text \<open>
  \<open>Dataset.batch\<close> cuts the stream into runs of \<open>batch_size\<close> elements, the last
  one shorter when the stream ends, and stacks each run into one tensor per component.
  Stacking needs images of one shape.
\<close>

function chunks :: "nat \<Rightarrow> 'e list \<Rightarrow> 'e list list" where
  "chunks n xs = (if n = 0 \<or> xs = [] then [] else take n xs # chunks n (drop n xs))"
  by pat_completeness auto
termination
  by (relation "measure (\<lambda>(n, xs). length xs)") auto

definition stack :: "('b image \<times> 'l) list \<Rightarrow> tf_error + ('b image list \<times> 'l list)" where
  "stack run =
     (case run of
        [] \<Rightarrow> Inl InvalidArgument
      | e # _ \<Rightarrow>
          if list_all (\<lambda>e'. shape (fst e') = shape (fst e)) run
          then Inr (map fst run, map snd run)
          else Inl InvalidArgument)"

definition batch :: "int \<Rightarrow> ('b image \<times> 'l) dataset \<Rightarrow> ('b image list \<times> 'l list) dataset" where
  "batch n ds =
     (\<lambda>g. if n < 1 then Inl InvalidArgument
          else (case ds g of
                  Inl e \<Rightarrow> Inl e
                | Inr xs \<Rightarrow> mapM stack (chunks (nat n) xs)))"

text \<open>\<open>Dataset.prefetch\<close> prepares elements ahead of their use; the stream is the same.\<close>

definition prefetch :: "int \<Rightarrow> 'e dataset \<Rightarrow> 'e dataset" where
  "prefetch buffer_size ds = ds"

section \<open>\<open>make_dataset\<close>\<close>

text \<open>
  The call either raises, or returns the dataset it has put together; nothing of that
  dataset runs before it is iterated.
\<close>

definition make_dataset ::
  "('a, 'b) kernel \<Rightarrow> ('a image \<times> 'l) dataset \<Rightarrow> bool \<Rightarrow> int \<Rightarrow> bool \<Rightarrow> int
     \<Rightarrow> error + ('b image list \<times> 'l list) dataset" where
  "make_dataset K dataset train image_size fixres num_parallel_calls =
     (if image_size \<notin> set [smaller_size, bigger_size] then Inl (ValueError image_size)
      else
        (let preprocess_func =
               (if image_size = smaller_size then preprocess_initial K train image_size
                else if \<not> fixres \<and> image_size = bigger_size
                then preprocess_initial K train image_size
                else preprocess_finetune K);
             dataset1 = (if train then shuffle (batch_size * 10) dataset else dataset)
         in Inr (prefetch num_parallel_calls
                   (batch batch_size
                      (map_ds (\<lambda>(x, y). preprocess_func x y train) num_parallel_calls
                         dataset1)))))"

text \<open>
  The function that \<open>make_dataset\<close> binds to \<open>preprocess_func\<close>, as a function of
  the arguments that decide it.
\<close>

definition preprocess_func ::
  "('a, 'b) kernel \<Rightarrow> bool \<Rightarrow> int \<Rightarrow> bool
     \<Rightarrow> 'a image \<Rightarrow> 'l \<Rightarrow> bool \<Rightarrow> draws \<Rightarrow> tf_error + ('b image \<times> 'l)" where
  "preprocess_func K train image_size fixres =
     (if image_size = smaller_size then preprocess_initial K train image_size
      else if \<not> fixres \<and> image_size = bigger_size
      then preprocess_initial K train image_size
      else preprocess_finetune K)"

section \<open>Notions used to state the properties\<close>

text \<open>
  The window of height \<open>h\<close> and width \<open>w\<close> whose top left corner is at row \<open>y\<close>,
  column \<open>x\<close>, with all channels.
\<close>

definition region :: "'a image \<Rightarrow> nat \<Rightarrow> nat \<Rightarrow> nat \<Rightarrow> nat \<Rightarrow> 'a image" where
  "region img y x h w = map (\<lambda>row. take w (drop x row)) (take h (drop y img))"

text \<open>
  The window the bounding-box sampler settles on: the candidate when it is valid, the
  whole image otherwise.
\<close>

definition crop_window :: "'a image \<Rightarrow> nat \<times> nat \<times> nat \<times> nat \<Rightarrow> nat \<times> nat \<times> nat \<times> nat" where
  "crop_window img cand =
     (if valid_window (shape img) (5 / 100, 1) cand then cand
      else (0, 0, height img, width img))"

subsection \<open>Concrete inputs\<close>

text \<open>
  A nearest-neighbour kernel, a picture of two by two pixels, draws for one example,
  draws whose window is the square pixel at the top left, a dataset whose iteration
  fails, an image of the intermediate size, and a dataset of three examples with the
  randomness of one iteration.
\<close>

definition nearest :: "(nat, nat) kernel" where
  "nearest img sz i j c =
     (case sz of (h, w) \<Rightarrow> img ! (i * height img div h) ! (j * width img div w) ! c)"

definition tiny_image :: "nat image" where
  "tiny_image = [[[1, 2, 3], [4, 5, 6]], [[7, 8, 9], [10, 11, 12]]]"

definition tiny_draws :: draws where
  "tiny_draws = \<lparr>window = (0, 0, 1, 2), coin = True\<rparr>"


definition failing_dataset :: "(nat image \<times> nat) dataset" where
  "failing_dataset = (\<lambda>g. Inl InvalidArgument)"

definition blank_392 :: "nat image" where
  "blank_392 = replicate 392 (replicate 392 [0, 0, 0])"

definition tiny_examples :: "(nat image \<times> nat) list" where
  "tiny_examples = [(tiny_image, 0), (tiny_image, 1), (tiny_image, 2)]"

definition tiny_dataset :: "(nat image \<times> nat) dataset" where
  "tiny_dataset = (\<lambda>g. Inr tiny_examples)"

definition tiny_rng :: rng where
  "tiny_rng = \<lparr>picks = (\<lambda>k. k), example_draws = (\<lambda>k. tiny_draws)\<rparr>"

section \<open>Shapes and the image operations\<close>

declare chunks.simps [simp del] shuffle_buffer.simps [simp del]

lemma size_for_resizing_eq: "size_for_resizing = 392"
  by (simp add: size_for_resizing_def py_int_def bigger_size_def smaller_size_def)

lemma mapM_Inr: "(\<And>x. x \<in> set xs \<Longrightarrow> f x = Inr (g x)) \<Longrightarrow> mapM f xs = Inr (map g xs)"
  by (induction xs) simp_all

lemma has_shape_shape:
  "has_shape img h w c \<Longrightarrow> 0 < h \<Longrightarrow> 0 < w \<Longrightarrow> shape img = (h, w, c)"
  unfolding has_shape_def shape_def height_def width_def channels_def
  by (cases img; cases "hd img") auto

lemma has_shape_dims:
  "has_shape img h w c \<Longrightarrow> 0 < h \<Longrightarrow> 0 < w \<Longrightarrow> height img = h \<and> width img = w \<and> channels img = c"
  using has_shape_shape [of img h w c] by (simp add: shape_def)

lemma wf_image_channels: "wf_image img \<Longrightarrow> channels img = 3"
  unfolding wf_image_def using has_shape_shape [of img "height img" "width img" 3]
  by (simp add: shape_def)

lemma slice_axis_all: "slice_axis 0 (-1) xs = Inr xs"
  by (simp add: slice_axis_def)

lemma slice_axis_window:
  "b + s \<le> length xs \<Longrightarrow> slice_axis (int b) (int s) xs = Inr (take s (drop b xs))"
  by (simp add: slice_axis_def Let_def)

lemma slice_region:
  assumes "has_shape img H W C" and "y + h \<le> H" and "x + w \<le> W"
  shows "slice img (int y, int x, 0) (int h, int w, -1) = Inr (region img y x h w)"
proof -
  have rows: "slice_axis (int y) (int h) img = Inr (take h (drop y img))"
    using assms by (simp add: slice_axis_window has_shape_def)
  have cols: "(case slice_axis (int x) (int w) row of
                 Inl e \<Rightarrow> Inl e
               | Inr cols \<Rightarrow> mapM (slice_axis 0 (-1)) cols) = Inr (take w (drop x row))"
    if "row \<in> set (take h (drop y img))" for row
  proof -
    from that have "row \<in> set img"
      by (meson in_set_dropD in_set_takeD)
    with assms have "x + w \<le> length row" by (simp add: has_shape_def)
    then have "slice_axis (int x) (int w) row = Inr (take w (drop x row))"
      by (rule slice_axis_window)
    moreover have "mapM (slice_axis 0 (-1)) ps = Inr ps" for ps :: "'a list list"
      using mapM_Inr [of ps "slice_axis 0 (-1)" "\<lambda>p. p"] by (simp add: slice_axis_all)
    ultimately show ?thesis by simp
  qed
  show ?thesis
    unfolding slice_def region_def using rows cols
    by (simp add: mapM_Inr [where g = "\<lambda>row. take w (drop x row)"])
qed

lemma has_shape_region:
  assumes "has_shape img H W C" and "y + h \<le> H" and "x + w \<le> W"
  shows "has_shape (region img y x h w) h w C"
  using assms unfolding has_shape_def region_def
  by (auto dest!: in_set_takeD in_set_dropD)


lemma resize_Inr:
  assumes "0 < h" and "0 < w" and "0 < height img" and "0 < width img"
  shows "\<exists>R. resize K img (h, w) = Inr R \<and> has_shape R (nat h) (nat w) (channels img)"
  using assms by (simp add: resize_def has_shape_def)

lemma has_shape_flip: "has_shape (flip_left_right img) h w c = has_shape img h w c"
  by (auto simp: has_shape_def flip_left_right_def)

lemma has_shape_random_flip:
  "has_shape (random_flip_left_right b img) h w c = has_shape img h w c"
  by (simp add: random_flip_left_right_def has_shape_flip)

lemma center_crop1_region:
  assumes "has_shape img H W C" and "0 < H" and "0 < W" and "th \<le> H" and "tw \<le> W"
  shows "center_crop1 (int th) (int tw) img
           = Inr (region img ((H - th) div 2) ((W - tw) div 2) th tw)"
proof -
  from assms have hw: "height img = H" "width img = W"
    using has_shape_dims by blast+
  have y: "(int H - int th) div 2 = int ((H - th) div 2)"
    using assms(4) by (simp add: of_nat_diff zdiv_int)
  have x: "(int W - int tw) div 2 = int ((W - tw) div 2)"
    using assms(5) by (simp add: of_nat_diff zdiv_int)
  have "(H - th) div 2 + th \<le> H" "(W - tw) div 2 + tw \<le> W"
    using assms(4,5) by simp_all
  then have "slice img (int ((H - th) div 2), int ((W - tw) div 2), 0) (int th, int tw, -1)
               = Inr (region img ((H - th) div 2) ((W - tw) div 2) th tw)"
    using slice_region [OF assms(1)] by blast
  then show ?thesis
    using assms(4,5) by (simp add: center_crop1_def Let_def hw x y)
qed

lemma central_crop_layer_392:
  assumes "has_shape img 392 392 C"
  shows "central_crop_layer (expand_dims img) = Inr [region img 84 84 224 224]"
proof -
  have "center_crop1 (int 224) (int 224) img
          = Inr (region img ((392 - 224) div 2) ((392 - 224) div 2) 224 224)"
    by (rule center_crop1_region [OF assms]) simp_all
  then show ?thesis
    by (simp add: central_crop_layer_def CenterCrop_def expand_dims_def bigger_size_def)
qed




text \<open>
  Flipping and then taking a window is taking the mirrored window and then flipping. The
  window of the centre crop is its own mirror image.
\<close>

lemma take_drop_rev:
  assumes "x + w \<le> length row"
  shows "take w (drop x (rev row)) = rev (take w (drop (length row - x - w) row))"
proof -
  have "take w (drop x (rev row)) = take w (rev (take (length row - x) row))"
    by (simp add: drop_rev)
  also have "\<dots> = rev (drop (length row - x - w) (take (length row - x) row))"
    using assms by (simp add: take_rev)
  also have "\<dots> = rev (take w (drop (length row - x - w) row))"
    using assms by (simp add: drop_take)
  finally show ?thesis .
qed

lemma region_flip:
  assumes "has_shape img H W C" and "x + w \<le> W"
  shows "region (flip_left_right img) y x h w = flip_left_right (region img y (W - x - w) h w)"
proof -
  have "take w (drop x (rev row)) = rev (take w (drop (W - x - w) row))"
    if "row \<in> set (take h (drop y img))" for row
  proof -
    from that have "row \<in> set img" by (meson in_set_dropD in_set_takeD)
    with assms have "length row = W" by (simp add: has_shape_def)
    with assms(2) show ?thesis using take_drop_rev [of x w row] by simp
  qed
  then show ?thesis
    by (simp add: region_def flip_left_right_def take_map drop_map)
qed

lemma region_flip_392:
  "has_shape img 392 392 C \<Longrightarrow>
   region (flip_left_right img) 84 84 224 224 = flip_left_right (region img 84 84 224 224)"
  using region_flip [of img 392 392 C 84 224 84 224] by simp

section \<open>The two preprocessing functions\<close>

lemma preprocess_finetune_value:
  assumes "wf_image img"
  shows "\<exists>R. resize K img (392, 392) = Inr R \<and> has_shape R 392 392 3 \<and>
             preprocess_finetune K img label train d
               = Inr (region (if train then random_flip_left_right (coin d) R else R)
                        84 84 224 224, label)"
proof -
  from assms have pos: "0 < height img" "0 < width img" and ch: "channels img = 3"
    by (simp_all add: wf_image_def wf_image_channels)
  obtain R where R: "resize K img (392, 392) = Inr R" and shR: "has_shape R 392 392 3"
    using resize_Inr [of 392 392 img K] pos ch by auto
  let ?R' = "if train then random_flip_left_right (coin d) R else R"
  have "has_shape ?R' 392 392 3"
    using shR by (simp add: has_shape_random_flip)
  then have "central_crop_layer (expand_dims ?R') = Inr [region ?R' 84 84 224 224]"
    by (rule central_crop_layer_392)
  then have "preprocess_finetune K img label train d = Inr (region ?R' 84 84 224 224, label)"
    using R by (simp add: preprocess_finetune_def size_for_resizing_eq first_def Let_def)
  with R shR show ?thesis by blast
qed



lemma crop_window_inside:
  assumes "wf_image img" and "crop_window img cand = (y, x, h, w)"
  shows "0 < h \<and> 0 < w \<and> y + h \<le> height img \<and> x + w \<le> width img"
  using assms unfolding crop_window_def wf_image_def valid_window_def shape_def
  by (auto split: if_splits)


lemma sample_crop_window:
  assumes "wf_image img" and "crop_window img cand = (y, x, h, w)"
  shows "sample_distorted_bounding_box (shape img) (5 / 100, 1) True cand
           = Inr ((int y, int x, 0), (int h, int w, -1))"
  using assms unfolding sample_distorted_bounding_box_def crop_window_def wf_image_def shape_def
  by (auto split: if_splits)

lemma pp_train_value:
  assumes "wf_image img" and "0 < s" and "crop_window img (window d) = (y, x, h, w)"
  shows "\<exists>R. resize K (region img y x h w) (s, s) = Inr R \<and>
             has_shape R (nat s) (nat s) 3 \<and>
             pp K s img label True d = Inr (random_flip_left_right (coin d) R, label)"
proof -
  let ?S = "region img y x h w"
  from assms(1) have sh: "has_shape img (height img) (width img) 3"
    by (simp add: wf_image_def)
  from crop_window_inside [OF assms(1,3)]
  have pos: "0 < h" "0 < w" and inside: "y + h \<le> height img" "x + w \<le> width img"
    by simp_all
  have sl: "slice img (int y, int x, 0) (int h, int w, -1) = Inr ?S"
    using slice_region [OF sh inside] .
  have shS: "has_shape ?S h w 3"
    using has_shape_region [OF sh inside] .
  with pos have dims: "height ?S = h" "width ?S = w" "channels ?S = 3"
    using has_shape_dims by blast+
  have ss: "set_shape ?S (None, None, Some (channels img)) = Inr ?S"
    using dims wf_image_channels [OF assms(1)] by (simp add: set_shape_def)
  obtain R where R: "resize K ?S (s, s) = Inr R" and shR: "has_shape R (nat s) (nat s) 3"
    using resize_Inr [of s s ?S K] assms(2) pos dims by auto
  have "pp K s img label True d = Inr (random_flip_left_right (coin d) R, label)"
    using sample_crop_window [OF assms(1,3)] sl ss R by (simp add: pp_def Let_def)
  with R shR show ?thesis by blast
qed

lemma pp_eval_value:
  assumes "wf_image img" and "0 < s"
  shows "\<exists>R. resize K img (s, s) = Inr R \<and> has_shape R (nat s) (nat s) 3 \<and>
             pp K s img label False d = Inr (R, label)"
proof -
  from assms(1) have pos: "0 < height img" "0 < width img" and ch: "channels img = 3"
    by (simp_all add: wf_image_def wf_image_channels)
  obtain R where R: "resize K img (s, s) = Inr R" and shR: "has_shape R (nat s) (nat s) 3"
    using resize_Inr [of s s img K] assms(2) pos ch by auto
  then show ?thesis by (simp add: pp_def)
qed

section \<open>The choice made by \<open>make_dataset\<close>\<close>

lemma make_dataset_supported:
  assumes "image_size = 128 \<or> image_size = 224"
  shows "make_dataset K dataset train image_size fixres num_parallel_calls
           = Inr (prefetch num_parallel_calls
                    (batch batch_size
                       (map_ds (\<lambda>(x, y). preprocess_func K train image_size fixres x y train)
                          num_parallel_calls
                          (if train then shuffle (batch_size * 10) dataset else dataset))))"
  using assms
  by (auto simp: make_dataset_def preprocess_func_def smaller_size_def bigger_size_def Let_def)

lemma preprocess_func_cases:
  "preprocess_func K t 128 fixres = pp K 128"
  "preprocess_func K t 224 False = pp K 224"
  "preprocess_func K t 224 True = preprocess_finetune K"
  by (simp_all add: preprocess_func_def preprocess_initial_def smaller_size_def bigger_size_def)

lemma selected_func_shape:
  assumes "wf_image img" and "image_size = 128 \<or> image_size = 224"
  shows "\<exists>img'. preprocess_func K train image_size fixres img label train d = Inr (img', label) \<and>
               shape img' = (nat image_size, nat image_size, 3) \<and>
               has_shape img' (nat image_size) (nat image_size) 3"
proof -
  have initial: "\<exists>img'. pp K s img label train d = Inr (img', label) \<and> has_shape img' (nat s) (nat s) 3"
    if "0 < s" for s
  proof (cases train)
    case True
    obtain y x h w where "crop_window img (window d) = (y, x, h, w)"
      by (metis prod_cases4)
    from pp_train_value [OF assms(1) that this, of K label] True show ?thesis
      by (auto simp: has_shape_random_flip)
  next
    case False
    with pp_eval_value [OF assms(1) that, of K label d] show ?thesis by auto
  qed
  have finetune: "\<exists>img'. preprocess_finetune K img label train d = Inr (img', label) \<and>
                        has_shape img' 224 224 3"
  proof -
    obtain R where R: "has_shape R 392 392 3"
      and v: "preprocess_finetune K img label train d
               = Inr (region (if train then random_flip_left_right (coin d) R else R)
                        84 84 224 224, label)"
      using preprocess_finetune_value [OF assms(1), of K label train d] by blast
    have "has_shape (if train then random_flip_left_right (coin d) R else R) 392 392 3"
      using R by (simp add: has_shape_random_flip)
    then have "has_shape (region (if train then random_flip_left_right (coin d) R else R)
                 84 84 224 224) 224 224 3"
      by (rule has_shape_region) simp_all
    with v show ?thesis by blast
  qed
  have "\<exists>img'. preprocess_func K train image_size fixres img label train d = Inr (img', label) \<and>
               has_shape img' (nat image_size) (nat image_size) 3"
  proof (cases "image_size = 128")
    case True
    with initial [of 128] show ?thesis by (simp add: preprocess_func_cases)
  next
    case False
    with assms(2) have s: "image_size = 224" by simp
    show ?thesis
    proof (cases fixres)
      case True
      with finetune s show ?thesis by (simp add: preprocess_func_cases)
    next
      case False
      with initial [of 224] s show ?thesis by (simp add: preprocess_func_cases)
    qed
  qed
  then obtain img' where
    r: "preprocess_func K train image_size fixres img label train d = Inr (img', label)"
    and sh: "has_shape img' (nat image_size) (nat image_size) 3"
    by blast
  from assms(2) have "0 < nat image_size" by auto
  with sh have "shape img' = (nat image_size, nat image_size, 3)"
    by (simp add: has_shape_shape)
  with r sh show ?thesis by blast
qed

lemma wf_tiny_image: "wf_image tiny_image"
  by (simp add: wf_image_def tiny_image_def height_def width_def has_shape_def)


lemma has_shape_blank_392: "has_shape blank_392 392 392 3"
  by (simp add: has_shape_def blank_392_def)

lemma wf_tiny_examples: "list_all (\<lambda>e. wf_image (fst e)) tiny_examples"
  by (simp add: tiny_examples_def wf_tiny_image)

section \<open>Shuffling and batching\<close>

lemma shuffle_buffer_Nil: "shuffle_buffer pick k [] rest = []"
  by (subst shuffle_buffer.simps) simp

lemma shuffle_buffer_step:
  "buf \<noteq> [] \<Longrightarrow>
   shuffle_buffer pick k buf rest =
     buf ! (pick k mod length buf) #
     (case rest of
        [] \<Rightarrow> shuffle_buffer pick (Suc k)
                (take (pick k mod length buf) buf @ drop (Suc (pick k mod length buf)) buf) []
      | x # xs \<Rightarrow> shuffle_buffer pick (Suc k) (buf[pick k mod length buf := x]) xs)"
  by (subst shuffle_buffer.simps) (simp add: Let_def)

lemma shuffle_buffer_length:
  "(buf = [] \<Longrightarrow> rest = []) \<Longrightarrow>
   length (shuffle_buffer pick k buf rest) = length buf + length rest"
proof (induction pick k buf rest rule: shuffle_buffer.induct)
  case (1 pick k buf rest)
  show ?case
  proof (cases "buf = []")
    case True
    with 1(3) show ?thesis by (simp add: shuffle_buffer_Nil)
  next
    case False
    define i where "i = pick k mod length buf"
    from False have i: "i < length buf" by (simp add: i_def)
    show ?thesis
    proof (cases rest)
      case Nil
      have "shuffle_buffer pick k buf rest
              = buf ! i # shuffle_buffer pick (Suc k) (take i buf @ drop (Suc i) buf) []"
        using shuffle_buffer_step [OF False, of pick k rest] Nil by (simp add: i_def)
      moreover have "length (shuffle_buffer pick (Suc k) (take i buf @ drop (Suc i) buf) [])
              = length (take i buf @ drop (Suc i) buf) + length ([] :: 'a list)"
        by (rule 1(1) [OF False i_def Nil]) simp
      ultimately show ?thesis using i Nil by simp
    next
      case (Cons x xs)
      have "shuffle_buffer pick k buf rest
              = buf ! i # shuffle_buffer pick (Suc k) (buf[i := x]) xs"
        using shuffle_buffer_step [OF False, of pick k rest] Cons by (simp add: i_def)
      moreover have "length (shuffle_buffer pick (Suc k) (buf[i := x]) xs)
              = length (buf[i := x]) + length xs"
        using False by (intro 1(2) [OF False i_def Cons]) simp
      ultimately show ?thesis using Cons by simp
    qed
  qed
qed

lemma shuffle_buffer_set:
  "set (shuffle_buffer pick k buf rest) \<subseteq> set buf \<union> set rest"
proof (induction pick k buf rest rule: shuffle_buffer.induct)
  case (1 pick k buf rest)
  show ?case
  proof (cases "buf = []")
    case True
    then show ?thesis by (simp add: shuffle_buffer_Nil)
  next
    case False
    define i where "i = pick k mod length buf"
    from False have i: "i < length buf" by (simp add: i_def)
    then have bi: "buf ! i \<in> set buf" by simp
    show ?thesis
    proof (cases rest)
      case Nil
      have "shuffle_buffer pick k buf rest
              = buf ! i # shuffle_buffer pick (Suc k) (take i buf @ drop (Suc i) buf) []"
        using shuffle_buffer_step [OF False, of pick k rest] Nil by (simp add: i_def)
      moreover have "set (take i buf @ drop (Suc i) buf) \<subseteq> set buf"
        by (auto dest: in_set_takeD in_set_dropD)
      moreover note 1(1) [OF False i_def Nil] bi
      ultimately show ?thesis by auto
    next
      case (Cons x xs)
      have "shuffle_buffer pick k buf rest
              = buf ! i # shuffle_buffer pick (Suc k) (buf[i := x]) xs"
        using shuffle_buffer_step [OF False, of pick k rest] Cons by (simp add: i_def)
      moreover have "set (buf[i := x]) \<subseteq> insert x (set buf)"
        by (rule set_update_subset_insert)
      moreover note 1(2) [OF False i_def Cons] bi
      ultimately show ?thesis using Cons by auto
    qed
  qed
qed

lemma shuffle_Inr:
  assumes "ds g = Inr xs" and "1 \<le> n"
  shows "\<exists>ys. shuffle n ds g = Inr ys \<and> length ys = length xs \<and> set ys \<subseteq> set xs"
proof -
  let ?ys = "shuffle_buffer (picks g) 0 (take (nat n) xs) (drop (nat n) xs)"
  from assms have eq: "shuffle n ds g = Inr ?ys" by (simp add: shuffle_def)
  from assms(2) have "take (nat n) xs = [] \<Longrightarrow> drop (nat n) xs = []" by auto
  then have "length ?ys = length (take (nat n) xs) + length (drop (nat n) xs)"
    by (rule shuffle_buffer_length)
  then have len: "length ?ys = length xs" by (simp add: min_def)
  have "set ?ys \<subseteq> set (take (nat n) xs) \<union> set (drop (nat n) xs)"
    by (rule shuffle_buffer_set)
  then have "set ?ys \<subseteq> set xs"
    by (auto dest: in_set_takeD in_set_dropD)
  with eq len show ?thesis by blast
qed

lemma chunks_Nil: "chunks n [] = []"
  by (simp add: chunks.simps [of n "[]"])

lemma chunks_Cons:
  "0 < n \<Longrightarrow> xs \<noteq> [] \<Longrightarrow> chunks n xs = take n xs # chunks n (drop n xs)"
  by (simp add: chunks.simps [of n xs])

lemma chunks_eq_Nil: "0 < n \<Longrightarrow> chunks n xs = [] \<longleftrightarrow> xs = []"
  by (cases "xs = []") (simp_all add: chunks_Nil chunks_Cons)

lemma chunks_length: "0 < n \<Longrightarrow> length (chunks n xs) = (length xs + n - 1) div n"
proof (induction n xs rule: chunks.induct)
  case (1 n xs)
  show ?case
  proof (cases "xs = []")
    case True
    with 1(2) show ?thesis by (simp add: chunks_Nil)
  next
    case False
    with 1 have IH: "length (chunks n (drop n xs)) = (length xs - n + n - 1) div n"
      by simp
    from False have L: "1 \<le> length xs" by (cases xs) simp_all
    have "(length xs + n - 1) div n = Suc ((length xs - n + n - 1) div n)"
    proof (cases "n \<le> length xs")
      case True
      with L 1(2) have "length xs + n - 1 = (length xs - n + n - 1) + n" by simp
      then have "(length xs + n - 1) div n = (length xs - n + n - 1) div n + 1"
        using 1(2) by (metis div_add_self2 less_numeral_extra(3))
      then show ?thesis by simp
    next
      case False
      with L 1(2) have "length xs + n - 1 = (length xs - 1) + n" by simp
      then have "(length xs + n - 1) div n = (length xs - 1) div n + 1"
        using 1(2) by (metis div_add_self2 less_numeral_extra(3))
      with False L 1(2) show ?thesis by simp
    qed
    with IH False 1(2) show ?thesis by (simp add: chunks_Cons)
  qed
qed

lemma chunks_member:
  "0 < n \<Longrightarrow> run \<in> set (chunks n xs) \<Longrightarrow> run \<noteq> [] \<and> set run \<subseteq> set xs"
proof (induction n xs rule: chunks.induct)
  case (1 n xs)
  show ?case
  proof (cases "xs = []")
    case True
    with 1(3) show ?thesis by (simp add: chunks_Nil)
  next
    case False
    with 1(2,3) have "run = take n xs \<or> run \<in> set (chunks n (drop n xs))"
      by (simp add: chunks_Cons)
    then show ?thesis
    proof
      assume "run = take n xs"
      with False 1(2) show ?thesis by (auto dest: in_set_takeD)
    next
      assume "run \<in> set (chunks n (drop n xs))"
      with 1(1) False 1(2) have "run \<noteq> [] \<and> set run \<subseteq> set (drop n xs)" by simp
      then show ?thesis by (auto dest: in_set_dropD)
    qed
  qed
qed

lemma chunks_full:
  "0 < n \<Longrightarrow> Suc i < length (chunks n xs) \<Longrightarrow> length (chunks n xs ! i) = n"
proof (induction n xs arbitrary: i rule: chunks.induct)
  case (1 n xs)
  from 1(3) have ne: "xs \<noteq> []" by (auto simp: chunks_Nil)
  with 1(2) have eq: "chunks n xs = take n xs # chunks n (drop n xs)"
    by (simp add: chunks_Cons)
  show ?case
  proof (cases i)
    case 0
    with 1(3) eq have "chunks n (drop n xs) \<noteq> []" by auto
    with 1(2) have "drop n xs \<noteq> []" by (simp add: chunks_eq_Nil)
    with 0 eq show ?thesis by simp
  next
    case (Suc i')
    with 1(3) eq have "Suc i' < length (chunks n (drop n xs))" by simp
    with 1(1) [of i'] ne 1(2) have "length (chunks n (drop n xs) ! i') = n" by simp
    with Suc eq show ?thesis by simp
  qed
qed

lemma chunks_last:
  "0 < n \<Longrightarrow> xs \<noteq> [] \<Longrightarrow>
   length (last (chunks n xs)) = (if length xs mod n = 0 then n else length xs mod n)"
proof (induction n xs rule: chunks.induct)
  case (1 n xs)
  from 1(2,3) have eq: "chunks n xs = take n xs # chunks n (drop n xs)"
    by (simp add: chunks_Cons)
  show ?case
  proof (cases "drop n xs = []")
    case True
    with eq have "last (chunks n xs) = take n xs" by (simp add: chunks_Nil)
    moreover from True have "length xs \<le> n" by simp
    moreover from 1(3) have "0 < length xs" by simp
    ultimately show ?thesis by (cases "length xs = n") simp_all
  next
    case False
    with 1(2) have "chunks n (drop n xs) \<noteq> []" by (simp add: chunks_eq_Nil)
    with eq have l: "last (chunks n xs) = last (chunks n (drop n xs))" by simp
    from False have ge: "n \<le> length xs" by simp
    then have "(length xs - n) mod n = length xs mod n"
      by (simp add: le_mod_geq)
    with 1(1) 1(2,3) False l show ?thesis by simp
  qed
qed

lemma mapM_enumerate:
  assumes "\<And>x d. x \<in> set xs \<Longrightarrow> \<exists>y. f x d = Inr y \<and> P y"
  shows "\<exists>ys. mapM (\<lambda>(k, x). f x (dr k)) (enumerate n xs) = Inr ys \<and>
              length ys = length xs \<and> (\<forall>y \<in> set ys. P y)"
  using assms
proof (induction xs arbitrary: n)
  case Nil
  then show ?case by simp
next
  case (Cons x xs)
  obtain y where y: "f x (dr n) = Inr y" "P y"
    using Cons.prems [of x "dr n"] by auto
  obtain ys where ys: "mapM (\<lambda>(k, x). f x (dr k)) (enumerate (Suc n) xs) = Inr ys"
    "length ys = length xs" "\<forall>y \<in> set ys. P y"
    using Cons.IH [of "Suc n"] Cons.prems by auto
  from y ys show ?case by simp
qed

lemma stack_uniform:
  assumes "run \<noteq> []" and "\<And>e. e \<in> set run \<Longrightarrow> shape (fst e) = s"
  shows "stack run = Inr (map fst run, map snd run)"
proof -
  from assms(1) obtain e es where run: "run = e # es" by (cases run) auto
  with assms(2) have "list_all (\<lambda>e'. shape (fst e') = shape (fst e)) run"
    by (simp add: list_all_iff)
  with run show ?thesis by (simp add: stack_def)
qed

lemma batch_uniform:
  assumes "0 < n" and "ds g = Inr ys" and "\<And>e. e \<in> set ys \<Longrightarrow> shape (fst e) = s"
  shows "batch (int n) ds g = Inr (map (\<lambda>run. (map fst run, map snd run)) (chunks n ys))"
proof -
  have "stack run = Inr (map fst run, map snd run)" if "run \<in> set (chunks n ys)" for run
  proof -
    from chunks_member [OF assms(1) that] have "run \<noteq> []" and "set run \<subseteq> set ys" by simp_all
    with assms(3) show ?thesis by (intro stack_uniform [of run s]) auto
  qed
  then have "mapM stack (chunks n ys)
               = Inr (map (\<lambda>run. (map fst run, map snd run)) (chunks n ys))"
    by (rule mapM_Inr)
  with assms(1,2) show ?thesis by (simp add: batch_def)
qed

lemma ceiling_div_128: "\<lceil>(of_nat N :: rat) / 128\<rceil> = int ((N + 127) div 128)"
proof -
  have "\<lceil>(of_int (int N) :: rat) / of_int 128\<rceil> = - (- int N div 128)"
    by (rule ceiling_divide_eq_div)
  also have "\<dots> = int ((N + 127) div 128)"
    by (simp add: zdiv_int)
  finally show ?thesis by simp
qed

section \<open>Properties of the pipeline\<close>

subsection \<open>Shape of the prepared image\<close>

text \<open>
  C1. For an image size of 128 or 224, any \<open>train\<close> and \<open>fixres\<close>, any kernel and
  any random draws, the function chosen by \<open>make_dataset\<close> turns an image of three
  channels, of any positive height and width, into an image of shape
  \<open>[image_size, image_size, 3]\<close>: the call succeeds, the result has \<open>image_size\<close>
  rows, each row has \<open>image_size\<close> pixels, each pixel three values.
\<close>

theorem prepared_image_shape:
  assumes "wf_image img" and "image_size = 128 \<or> image_size = 224"
  shows "\<exists>img'. preprocess_func K train image_size fixres img label train d = Inr (img', label) \<and>
               shape img' = (nat image_size, nat image_size, 3) \<and>
               has_shape img' (nat image_size) (nat image_size) 3"
  using assms by (rule selected_func_shape)

theorem prepared_image_shape_witness:
  "wf_image tiny_image \<and> ((224 :: int) = 128 \<or> (224 :: int) = 224) \<and>
   (\<exists>img'. preprocess_func nearest True 224 True tiny_image (4 :: nat) True tiny_draws
              = Inr (img', 4) \<and>
            shape img' = (nat 224, nat 224, 3) \<and> has_shape img' (nat 224) (nat 224) 3)"
proof -
  have h: "(224 :: int) = 128 \<or> (224 :: int) = 224" by simp
  from prepared_image_shape [OF wf_tiny_image h, of nearest True True 4 tiny_draws]
    wf_tiny_image h
  show ?thesis by blast
qed

subsection \<open>Unsupported image sizes\<close>

text \<open>
  C2. For an image size other than 128 and 224, \<open>make_dataset\<close> raises the
  \<open>ValueError\<close> for that size, whatever the other arguments are. The result of the
  call is the error and no dataset: no shuffle, map or batch has been put on the input
  dataset, and the input dataset has not been iterated. The instance below passes a
  dataset whose iteration fails, and the failure does not show.
\<close>

theorem unsupported_resolution_raises:
  assumes "image_size \<noteq> 128" and "image_size \<noteq> 224"
  shows "make_dataset K dataset train image_size fixres num_parallel_calls
           = Inl (ValueError image_size)"
  using assms by (simp add: make_dataset_def smaller_size_def bigger_size_def)

theorem unsupported_resolution_raises_witness:
  "(100 :: int) \<noteq> 128 \<and> (100 :: int) \<noteq> 224 \<and>
   make_dataset nearest failing_dataset True 100 True auto = Inl (ValueError 100)"
  using unsupported_resolution_raises [of 100 nearest failing_dataset True True auto] by simp

subsection \<open>Fine-tuning, evaluation split\<close>

text \<open>
  C3. For image size 224 with \<open>fixres\<close> and without \<open>train\<close>, the chosen function
  uses no random draw: for a fixed image every draw gives the same result, so two
  applications agree. The result is the image resized to 392 by 392, then centre-cropped
  to 224 by 224 (the window of that size at row 84, column 84).
\<close>

theorem finetune_eval_deterministic:
  assumes "wf_image img"
  shows "\<exists>R C. resize K img (392, 392) = Inr R \<and> has_shape R 392 392 3 \<and>
               central_crop_layer (expand_dims R) = Inr [C] \<and>
               C = region R 84 84 224 224 \<and>
               (\<forall>d. preprocess_func K False 224 True img label False d = Inr (C, label)) \<and>
               (\<forall>d1 d2. preprocess_func K False 224 True img label False d1
                         = preprocess_func K False 224 True img label False d2)"
proof -
  obtain R where R: "resize K img (392, 392) = Inr R" and sh: "has_shape R 392 392 3"
    using resize_Inr [of 392 392 img K] assms
    by (auto simp: wf_image_def wf_image_channels)
  have v: "preprocess_func K False 224 True img label False d
             = Inr (region R 84 84 224 224, label)" for d
    using preprocess_finetune_value [OF assms, of K label False d] R
    by (auto simp: preprocess_func_cases)
  from central_crop_layer_392 [OF sh] R sh v show ?thesis by simp
qed

theorem finetune_eval_deterministic_witness:
  "wf_image tiny_image \<and>
   (\<exists>R C. resize nearest tiny_image (392, 392) = Inr R \<and> has_shape R 392 392 3 \<and>
          central_crop_layer (expand_dims R) = Inr [C] \<and>
          C = region R 84 84 224 224 \<and>
          (\<forall>d. preprocess_func nearest False 224 True tiny_image (4 :: nat) False d
                 = Inr (C, 4)) \<and>
          (\<forall>d1 d2. preprocess_func nearest False 224 True tiny_image (4 :: nat) False d1
                    = preprocess_func nearest False 224 True tiny_image (4 :: nat) False d2))"
  using finetune_eval_deterministic [of tiny_image nearest "4 :: nat"] wf_tiny_image
  by simp

subsection \<open>Fine-tuning, training split\<close>

text \<open>
  C4. For image size 224 with \<open>fixres\<close> and \<open>train\<close>, the only draw that the
  result depends on is the coin of the flip. Let \<open>C\<close> be the centre crop, 224 by 224,
  of the image resized to 392 by 392. The result is \<open>C\<close> when the coin says no and
  \<open>C\<close> mirrored left to right when it says yes; both have shape \<open>[224, 224, 3]\<close>.
  The code flips before it crops; the two agree because the centre window is symmetric.
  How often the coin says yes is a matter of the random source.
\<close>

theorem finetune_train_flip_only:
  assumes "wf_image img"
  shows "\<exists>R C. resize K img (392, 392) = Inr R \<and> has_shape R 392 392 3 \<and>
               central_crop_layer (expand_dims R) = Inr [C] \<and>
               C = region R 84 84 224 224 \<and>
               (\<forall>d. preprocess_func K True 224 True img label True d
                      = Inr (if coin d then flip_left_right C else C, label)) \<and>
               has_shape C 224 224 3 \<and> has_shape (flip_left_right C) 224 224 3"
proof -
  obtain R where R: "resize K img (392, 392) = Inr R" and sh: "has_shape R 392 392 3"
    using resize_Inr [of 392 392 img K] assms
    by (auto simp: wf_image_def wf_image_channels)
  let ?C = "region R 84 84 224 224"
  have v: "preprocess_func K True 224 True img label True d
             = Inr (if coin d then flip_left_right ?C else ?C, label)" for d
    using preprocess_finetune_value [OF assms, of K label True d] R region_flip_392 [OF sh]
    by (auto simp: preprocess_func_cases random_flip_left_right_def)
  have shC: "has_shape ?C 224 224 3"
    by (rule has_shape_region [OF sh]) simp_all
  with R sh v central_crop_layer_392 [OF sh] show ?thesis by (simp add: has_shape_flip)
qed

theorem finetune_train_flip_only_witness:
  "wf_image tiny_image \<and>
   (\<exists>R C. resize nearest tiny_image (392, 392) = Inr R \<and> has_shape R 392 392 3 \<and>
          central_crop_layer (expand_dims R) = Inr [C] \<and>
          C = region R 84 84 224 224 \<and>
          (\<forall>d. preprocess_func nearest True 224 True tiny_image (4 :: nat) True d
                 = Inr (if coin d then flip_left_right C else C, 4)) \<and>
          has_shape C 224 224 3 \<and> has_shape (flip_left_right C) 224 224 3)"
  using finetune_train_flip_only [of tiny_image nearest "4 :: nat"] wf_tiny_image
  by simp

subsection \<open>The initial strategy at both sizes\<close>

text \<open>
  C5. With image size 224 and without \<open>fixres\<close>, \<open>make_dataset\<close> maps the same
  function over the dataset as with image size 128: \<open>preprocess_initial\<close>, applied to
  the image size. The two datasets it returns differ in that argument only.
\<close>

theorem vanilla_selects_initial:
  "make_dataset K dataset train 224 False num_parallel_calls
     = Inr (prefetch num_parallel_calls
              (batch batch_size
                 (map_ds (\<lambda>(x, y). preprocess_initial K train 224 x y train) num_parallel_calls
                    (if train then shuffle (batch_size * 10) dataset else dataset)))) \<and>
   make_dataset K dataset train 128 fixres num_parallel_calls
     = Inr (prefetch num_parallel_calls
              (batch batch_size
                 (map_ds (\<lambda>(x, y). preprocess_initial K train 128 x y train) num_parallel_calls
                    (if train then shuffle (batch_size * 10) dataset else dataset)))) \<and>
   preprocess_func K train 224 False = preprocess_initial K train 224 \<and>
   preprocess_func K train 128 fixres = preprocess_initial K train 128"
  by (simp add: make_dataset_def preprocess_func_def smaller_size_def bigger_size_def Let_def)

theorem vanilla_selects_initial_witness:
  "make_dataset nearest failing_dataset True 224 False auto
     = Inr (prefetch auto
              (batch batch_size
                 (map_ds (\<lambda>(x, y). preprocess_initial nearest True 224 x y True) auto
                    (if True then shuffle (batch_size * 10) failing_dataset else failing_dataset)))) \<and>
   make_dataset nearest failing_dataset True 128 True auto
     = Inr (prefetch auto
              (batch batch_size
                 (map_ds (\<lambda>(x, y). preprocess_initial nearest True 128 x y True) auto
                    (if True then shuffle (batch_size * 10) failing_dataset else failing_dataset)))) \<and>
   preprocess_func nearest True 224 False
     = (preprocess_initial nearest True 224
          :: nat image \<Rightarrow> nat \<Rightarrow> bool \<Rightarrow> draws \<Rightarrow> tf_error + (nat image \<times> nat)) \<and>
   preprocess_func nearest True 128 True
     = (preprocess_initial nearest True 128
          :: nat image \<Rightarrow> nat \<Rightarrow> bool \<Rightarrow> draws \<Rightarrow> tf_error + (nat image \<times> nat))"
  by (rule vanilla_selects_initial [of nearest failing_dataset True auto True])

subsection \<open>What the initial strategy computes\<close>



subsection \<open>The intermediate size and the offset of the centre crop\<close>

text \<open>
  C7. The size for resizing, \<open>int((224 / 128) * 224)\<close>, is 392. On an image of 392 by
  392 the centre crop of size 224 is the slice that begins at row 84 and column 84, which
  is \<open>(392 - 224) / 2\<close>: the pixel at \<open>(i, j)\<close> of the crop is the pixel at
  \<open>(84 + i, 84 + j)\<close> of the image.
\<close>

theorem resize_size_and_crop_offset:
  assumes "has_shape img (nat size_for_resizing) (nat size_for_resizing) C"
  shows "size_for_resizing = 392 \<and>
         center_crop1 bigger_size bigger_size img = slice img (84, 84, 0) (224, 224, -1) \<and>
         central_crop_layer (expand_dims img) = Inr [region img 84 84 224 224] \<and>
         (\<forall>i < 224. \<forall>j < 224. region img 84 84 224 224 ! i ! j = img ! (84 + i) ! (84 + j))"
proof -
  from assms have sh: "has_shape img 392 392 C"
    by (simp add: size_for_resizing_eq)
  then have dims: "height img = 392" "width img = 392"
    using has_shape_dims [of img 392 392 C] by simp_all
  have crop: "center_crop1 bigger_size bigger_size img = slice img (84, 84, 0) (224, 224, -1)"
    by (simp add: center_crop1_def bigger_size_def dims)
  have px: "region img 84 84 224 224 ! i ! j = img ! (84 + i) ! (84 + j)"
    if "i < 224" and "j < 224" for i j
  proof -
    from sh have len: "length img = 392" by (simp add: has_shape_def)
    with that have "img ! (84 + i) \<in> set img" by simp
    with sh have "length (img ! (84 + i)) = 392" by (simp add: has_shape_def)
    with that len show ?thesis by (simp add: region_def)
  qed
  from crop central_crop_layer_392 [OF sh] px show ?thesis
    by (simp add: size_for_resizing_eq)
qed

theorem resize_size_and_crop_offset_witness:
  "has_shape blank_392 (nat size_for_resizing) (nat size_for_resizing) 3 \<and>
   size_for_resizing = 392 \<and>
   center_crop1 bigger_size bigger_size blank_392 = slice blank_392 (84, 84, 0) (224, 224, -1) \<and>
   central_crop_layer (expand_dims blank_392) = Inr [region blank_392 84 84 224 224] \<and>
   region blank_392 84 84 224 224 ! 5 ! 7 = blank_392 ! (84 + 5) ! (84 + 7)"
proof -
  have h: "has_shape blank_392 (nat size_for_resizing) (nat size_for_resizing) 3"
    using has_shape_blank_392 by (simp add: size_for_resizing_eq)
  have "(5 :: nat) < 224" and "(7 :: nat) < 224" by simp_all
  with resize_size_and_crop_offset [OF h] h show ?thesis by blast
qed

subsection \<open>Number and size of the batches\<close>

text \<open>
  C8. Let the image size be 128 or 224 and let the source dataset give \<open>N\<close> examples
  with well-formed images. Then \<open>make_dataset\<close> returns a dataset whose iteration
  gives \<open>ceil(N / 128)\<close> batches. Every batch but the last holds 128 images and 128
  labels; the last holds \<open>N mod 128\<close> of each when that is not zero, and 128 otherwise.
  This holds with and without shuffling.
\<close>

theorem batch_count:
  fixes K :: "('a, 'b) kernel" and dataset :: "('a image \<times> 'l) dataset"
  assumes "image_size = 128 \<or> image_size = 224"
    and "dataset g = Inr xs"
    and "list_all (\<lambda>e. wf_image (fst e)) xs"
  shows "\<exists>ds bs. make_dataset K dataset train image_size fixres num_parallel_calls = Inr ds \<and>
                ds g = Inr bs \<and>
                int (length bs) = \<lceil>(of_nat (length xs) :: rat) / 128\<rceil> \<and>
                (\<forall>i. Suc i < length bs \<longrightarrow>
                       length (fst (bs ! i)) = 128 \<and> length (snd (bs ! i)) = 128) \<and>
                (xs \<noteq> [] \<longrightarrow>
                   length (fst (last bs))
                     = (if length xs mod 128 = 0 then 128 else length xs mod 128) \<and>
                   length (snd (last bs))
                     = (if length xs mod 128 = 0 then 128 else length xs mod 128))"
proof -
  let ?ds1 = "if train then shuffle (batch_size * 10) dataset else dataset"
  let ?f = "\<lambda>(x, y). preprocess_func K train image_size fixres x y train"
  let ?mapped = "map_ds ?f num_parallel_calls ?ds1"
  let ?unzip = "\<lambda>run :: ('b image \<times> 'l) list. (map fst run, map snd run)"
  obtain xs1 where xs1: "?ds1 g = Inr xs1" "length xs1 = length xs" "set xs1 \<subseteq> set xs"
  proof (cases train)
    case True
    with shuffle_Inr [of dataset g xs "batch_size * 10"] assms(2) that show ?thesis
      by (auto simp: batch_size_def)
  next
    case False
    with assms(2) that show ?thesis by simp
  qed
  have "\<exists>e'. ?f e d = Inr e' \<and> shape (fst e') = (nat image_size, nat image_size, 3)"
    if "e \<in> set xs1" for e d
  proof -
    from that xs1(3) assms(3) have "wf_image (fst e)" by (auto simp: list_all_iff)
    from selected_func_shape [OF this assms(1), of K train fixres "snd e" d]
    show ?thesis by (cases e) auto
  qed
  then obtain ys where ys: "mapM (\<lambda>(k, e). ?f e (example_draws g k)) (enumerate 0 xs1) = Inr ys"
    "length ys = length xs1"
    "\<forall>e' \<in> set ys. shape (fst e') = (nat image_size, nat image_size, 3)"
    using mapM_enumerate [of xs1 ?f "\<lambda>e'. shape (fst e') = (nat image_size, nat image_size, 3)"
        "example_draws g" 0]
    by blast
  from xs1(1) ys(1) have mapped: "?mapped g = Inr ys"
    by (simp add: map_ds_def)
  have batched: "batch (int 128) ?mapped g = Inr (map ?unzip (chunks 128 ys))"
    using batch_uniform [of 128 ?mapped g ys "(nat image_size, nat image_size, 3)"] mapped ys(3)
    by simp
  let ?bs = "map ?unzip (chunks 128 ys)"
  let ?ds = "prefetch num_parallel_calls (batch batch_size ?mapped)"
  have N: "length ys = length xs" using ys(2) xs1(2) by simp
  have made: "make_dataset K dataset train image_size fixres num_parallel_calls = Inr ?ds"
    by (rule make_dataset_supported [OF assms(1)])
  have run: "?ds g = Inr ?bs"
    using batched by (simp add: prefetch_def batch_size_def)
  have count: "int (length ?bs) = \<lceil>(of_nat (length xs) :: rat) / 128\<rceil>"
    using chunks_length [of 128 ys] N by (simp add: ceiling_div_128)
  have full: "length (fst (?bs ! i)) = 128 \<and> length (snd (?bs ! i)) = 128"
    if "Suc i < length ?bs" for i
  proof -
    from that have "Suc i < length (chunks 128 ys)" by simp
    then have "length (chunks 128 ys ! i) = 128" and "i < length (chunks 128 ys)"
      by (simp_all add: chunks_full)
    then show ?thesis by simp
  qed
  have tail: "length (fst (last ?bs)) = (if length xs mod 128 = 0 then 128 else length xs mod 128) \<and>
              length (snd (last ?bs)) = (if length xs mod 128 = 0 then 128 else length xs mod 128)"
    if "xs \<noteq> []"
  proof -
    from that N have ne: "ys \<noteq> []" by auto
    then have "chunks 128 ys \<noteq> []" by (simp add: chunks_eq_Nil)
    then have "last ?bs = ?unzip (last (chunks 128 ys))" by (simp add: last_map)
    with chunks_last [of 128 ys] ne N show ?thesis by simp
  qed
  from made run count full tail show ?thesis by blast
qed

theorem batch_count_witness:
  "((128 :: int) = 128 \<or> (128 :: int) = 224) \<and>
   tiny_dataset tiny_rng = Inr tiny_examples \<and>
   list_all (\<lambda>e. wf_image (fst e)) tiny_examples \<and>
   (\<exists>ds bs. make_dataset nearest tiny_dataset True 128 True auto = Inr ds \<and>
            ds tiny_rng = Inr bs \<and>
            int (length bs) = \<lceil>(of_nat (length tiny_examples) :: rat) / 128\<rceil> \<and>
            (\<forall>i. Suc i < length bs \<longrightarrow>
                   length (fst (bs ! i)) = 128 \<and> length (snd (bs ! i)) = 128) \<and>
            (tiny_examples \<noteq> [] \<longrightarrow>
               length (fst (last bs))
                 = (if length tiny_examples mod 128 = 0 then 128
                    else length tiny_examples mod 128) \<and>
               length (snd (last bs))
                 = (if length tiny_examples mod 128 = 0 then 128
                    else length tiny_examples mod 128)))"
proof -
  have h1: "(128 :: int) = 128 \<or> (128 :: int) = 224" by simp
  have h2: "tiny_dataset tiny_rng = Inr tiny_examples" by (simp add: tiny_dataset_def)
  from batch_count [where image_size = 128 and dataset = tiny_dataset and g = tiny_rng
      and xs = tiny_examples and K = nearest and train = True and fixres = True
      and num_parallel_calls = auto, OF h1 h2 wf_tiny_examples]
    h1 h2 wf_tiny_examples
  show ?thesis by blast
qed

subsection \<open>The label\<close>

text \<open>
  C9. Whatever the image size, \<open>train\<close> and \<open>fixres\<close> are, a result of the chosen
  function carries the label it was given; and for a well-formed image and an image size
  of 128 or 224 there is a result. The functions are written without assignment to their
  arguments: each operation returns a new tensor, which the model shows as a function
  from the example to a new example, so that the example passed in is the same value
  after the call.
\<close>

theorem label_unchanged:
  "(\<forall>img' l'. preprocess_func K train image_size fixres img label train d = Inr (img', l')
       \<longrightarrow> l' = label) \<and>
   (wf_image img \<and> (image_size = 128 \<or> image_size = 224)
       \<longrightarrow> (\<exists>img'. preprocess_func K train image_size fixres img label train d
                     = Inr (img', label)))"
proof
  show "\<forall>img' l'. preprocess_func K train image_size fixres img label train d = Inr (img', l')
          \<longrightarrow> l' = label"
    by (auto simp: preprocess_func_def preprocess_initial_def pp_def preprocess_finetune_def
          Let_def split: if_splits sum.splits)
next
  show "wf_image img \<and> (image_size = 128 \<or> image_size = 224)
          \<longrightarrow> (\<exists>img'. preprocess_func K train image_size fixres img label train d
                        = Inr (img', label))"
  proof
    assume a: "wf_image img \<and> (image_size = 128 \<or> image_size = 224)"
    then have "wf_image img" and "image_size = 128 \<or> image_size = 224" by simp_all
    from selected_func_shape [OF this, of K train fixres label d] show
      "\<exists>img'. preprocess_func K train image_size fixres img label train d = Inr (img', label)"
      by blast
  qed
qed

theorem label_unchanged_witness:
  "wf_image tiny_image \<and>
   (\<exists>img'. preprocess_func nearest True 128 True tiny_image (4 :: nat) True tiny_draws
              = Inr (img', 4))"
  using label_unchanged [of nearest True 128 True tiny_image "4 :: nat" tiny_draws]
    wf_tiny_image
  by simp

subsection \<open>\<open>fixres\<close> at the smaller size\<close>

text \<open>
  C10. With image size 128, \<open>make_dataset\<close> returns the same dataset with
  \<open>fixres\<close> as without it, for every input dataset and \<open>train\<close>: the test for the
  smaller size comes first and does not read \<open>fixres\<close>.
\<close>

theorem fixres_ignored_at_smaller_size:
  "make_dataset K dataset train 128 True num_parallel_calls
     = make_dataset K dataset train 128 False num_parallel_calls \<and>
   preprocess_func K train 128 True = preprocess_func K train 128 False"
  by (simp add: make_dataset_def preprocess_func_def smaller_size_def bigger_size_def Let_def)

theorem fixres_ignored_at_smaller_size_witness:
  "make_dataset nearest failing_dataset True 128 True auto
     = make_dataset nearest failing_dataset True 128 False auto \<and>
   preprocess_func nearest True 128 True
     = (preprocess_func nearest True 128 False
          :: nat image \<Rightarrow> nat \<Rightarrow> bool \<Rightarrow> draws \<Rightarrow> tf_error + (nat image \<times> nat))"
  by (rule fixres_ignored_at_smaller_size [of nearest failing_dataset True auto])

end
